theory Spec2Isabelle
  imports Main "HOL-Library.Word"
begin

section \<open>Type identities\<close>

text \<open>
  A \<^verbatim>\<open>std::type_info\<close> object lives at some address and denotes one type. Two
  objects at different addresses may denote the same type; \<^verbatim>\<open>operator==\<close> on
  \<^verbatim>\<open>type_info\<close> compares the denoted types, pointer comparison compares the objects.
\<close>

datatype type_info = TypeInfo (ti_addr: nat) (ti_type: string)

text \<open>\<^verbatim>\<open>const std::type_info*\<close>: \<open>None\<close> is the null pointer.\<close>

type_synonym type_info_ptr = "type_info option"

definition type_info_eq :: "type_info \<Rightarrow> type_info \<Rightarrow> bool" where
  "type_info_eq a b = (ti_type a = ti_type b)"

text \<open>
  \<^verbatim>\<open>HashTypeInfoReferents\<close>. The value of \<^verbatim>\<open>type_info::hash_code\<close> is left to the
  implementation, so it is a parameter here; \<^verbatim>\<open>std::size_t\<close> is taken as 64 bits.
\<close>

definition HashTypeInfoReferents :: "(type_info \<Rightarrow> 64 word) \<Rightarrow> type_info_ptr \<Rightarrow> 64 word" where
  "HashTypeInfoReferents hash_code ti =
     (case ti of None \<Rightarrow> 0 | Some t \<Rightarrow> hash_code t)"

text \<open>\<^verbatim>\<open>EqualReferents<std::type_info>\<close>:
  \<^verbatim>\<open>lhs == rhs || (lhs && rhs && *lhs == *rhs)\<close>.\<close>

definition EqualReferents :: "type_info_ptr \<Rightarrow> type_info_ptr \<Rightarrow> bool" where
  "EqualReferents lhs rhs =
     (lhs = rhs \<or>
      (case lhs of None \<Rightarrow> False
       | Some l \<Rightarrow> (case rhs of None \<Rightarrow> False | Some r \<Rightarrow> type_info_eq l r)))"

section \<open>Component pointers\<close>

text \<open>
  A \<^verbatim>\<open>Component*\<close> is null or refers to the \<^verbatim>\<open>Component\<close> base of an object. The
  reference records the type the object was handed over as (\<open>is_a\<close>), and a designator
  of the object itself (\<open>obj\<close>), which the framework never looks into.
\<close>

datatype 'c Component_ptr = nullptr | Ref (is_a: string) (obj: 'c)

text \<open>
  \<^verbatim>\<open>ComponentPtr = std::unique_ptr<Component, void(*)(Component*)>\<close>: the owned pointer
  and the deleter; the deleter made by \<^verbatim>\<open>MakeComponentPtr<T>\<close> casts to \<^verbatim>\<open>T*\<close>, so
  it is represented by the name of \<^verbatim>\<open>T\<close>.
\<close>

record 'c ComponentPtr =
  get_ptr :: "'c Component_ptr"
  deleter :: string

text \<open>\<^verbatim>\<open>MakeComponentPtr<T>(T* ptr)\<close>; a \<^verbatim>\<open>T*\<close> is \<open>None\<close> (null) or \<open>Some c\<close>.\<close>

definition MakeComponentPtr :: "string \<Rightarrow> 'c option \<Rightarrow> 'c ComponentPtr" where
  "MakeComponentPtr T ptr =
     \<lparr>get_ptr = (case ptr of None \<Rightarrow> nullptr | Some c \<Rightarrow> Ref T c), deleter = T\<rparr>"

text \<open>
  \<^verbatim>\<open>static_cast<T*>(Component*)\<close>. The cast of a null pointer is null; the cast of a
  reference to an object that is not a \<^verbatim>\<open>T\<close> has no defined result, which is the error
  \<open>Bad_cast\<close> here.
\<close>

datatype cast_error = Bad_cast

definition static_cast :: "string \<Rightarrow> 'c Component_ptr \<Rightarrow> cast_error + 'c option" where
  "static_cast T p =
     (case p of nullptr \<Rightarrow> Inr None
      | Ref U c \<Rightarrow> if U = T then Inr (Some c) else Inl Bad_cast)"

section \<open>The underlying map\<close>

text \<open>
  \<^verbatim>\<open>std::unordered_map<const std::type_info*, ComponentPtr, HashTypeInfoReferents,
  EqualReferents<std::type_info>>\<close> as a list of entries. Keys are compared with
  \<open>EqualReferents\<close>. \<open>umap_find\<close> gives the entry with an equivalent key, or
  \<open>None\<close> for \<^verbatim>\<open>end()\<close>; \<open>umap_emplace\<close> adds the entry only when no equivalent key
  is there and says whether it did; \<open>umap_erase\<close> removes the entries with an
  equivalent key.
\<close>

type_synonym 'c UnderlyingMap = "(type_info_ptr \<times> 'c ComponentPtr) list"

fun umap_find :: "'c UnderlyingMap \<Rightarrow> type_info_ptr \<Rightarrow> (type_info_ptr \<times> 'c ComponentPtr) option" where
  "umap_find [] k = None"
| "umap_find (p # ps) k = (if EqualReferents (fst p) k then Some p else umap_find ps k)"

definition umap_emplace ::
  "'c UnderlyingMap \<Rightarrow> type_info_ptr \<Rightarrow> 'c ComponentPtr \<Rightarrow> 'c UnderlyingMap \<times> bool" where
  "umap_emplace m k v =
     (case umap_find m k of None \<Rightarrow> (m @ [(k, v)], True) | Some _ \<Rightarrow> (m, False))"

definition umap_erase :: "'c UnderlyingMap \<Rightarrow> type_info_ptr \<Rightarrow> 'c UnderlyingMap" where
  "umap_erase m k = filter (\<lambda>p. \<not> EqualReferents (fst p) k) m"

section \<open>Entity\<close>

record 'c Entity =
  componentMap :: "'c UnderlyingMap"

text \<open>The implicit default constructor: an empty map.\<close>

definition Entity_ctor :: "'c Entity" where
  "Entity_ctor = \<lparr>componentMap = []\<rparr>"

text \<open>\<^verbatim>\<open>Component* get(const std::type_info* ti) const\<close>\<close>

definition get :: "'c Entity \<Rightarrow> type_info_ptr \<Rightarrow> 'c Component_ptr" where
  "get e ti =
     (case umap_find (componentMap e) ti of None \<Rightarrow> nullptr | Some i \<Rightarrow> get_ptr (snd i))"

text \<open>
  \<^verbatim>\<open>T* get<T>() const\<close>. In the typed operations the argument \<open>T\<close> is the
  \<^verbatim>\<open>type_info\<close> object that \<^verbatim>\<open>typeid(T)\<close> refers to at the call; \<open>ti_type T\<close> is the
  type itself.
\<close>

definition get_T :: "type_info \<Rightarrow> 'c Entity \<Rightarrow> cast_error + 'c option" where
  "get_T T e = static_cast (ti_type T) (get e (Some T))"

text \<open>
  \<^verbatim>\<open>emplace<T>(args...)\<close>. The argument \<open>ptr\<close> is the object that \<^verbatim>\<open>new T(args...)\<close>
  returns, which is never null.
\<close>

definition emplace :: "type_info \<Rightarrow> 'c \<Rightarrow> 'c Entity \<Rightarrow> 'c Entity" where
  "emplace T ptr e =
     (let component = MakeComponentPtr (ti_type T) (Some ptr)
      in e\<lparr>componentMap := fst (umap_emplace (componentMap e) (Some T) component)\<rparr>)"

text \<open>\<^verbatim>\<open>insert<T>(T* c)\<close>; the pointer may be null.\<close>

definition insert_T :: "type_info \<Rightarrow> 'c option \<Rightarrow> 'c Entity \<Rightarrow> 'c Entity" where
  "insert_T T c e =
     e\<lparr>componentMap :=
         fst (umap_emplace (componentMap e) (Some T) (MakeComponentPtr (ti_type T) c))\<rparr>"

text \<open>\<^verbatim>\<open>erase(const std::type_info* ti)\<close> and \<^verbatim>\<open>erase<T>()\<close>\<close>

definition erase :: "type_info_ptr \<Rightarrow> 'c Entity \<Rightarrow> 'c Entity" where
  "erase ti e = e\<lparr>componentMap := umap_erase (componentMap e) ti\<rparr>"

definition erase_T :: "type_info \<Rightarrow> 'c Entity \<Rightarrow> 'c Entity" where
  "erase_T T e = erase (Some T) e"

text \<open>\<^verbatim>\<open>contains(const std::type_info* ti) const\<close> and \<^verbatim>\<open>contains<T>() const\<close>\<close>

definition contains :: "'c Entity \<Rightarrow> type_info_ptr \<Rightarrow> bool" where
  "contains e ti = (umap_find (componentMap e) ti \<noteq> None)"

definition contains_T :: "type_info \<Rightarrow> 'c Entity \<Rightarrow> bool" where
  "contains_T T e = contains e (Some T)"

section \<open>System\<close>

text \<open>
  \<^verbatim>\<open>System<Components...>\<close>: the vector \<open>componentTypes\<close> and, in \<open>derived\<close>, the
  members a concrete system adds. \<open>System_ctor\<close> takes the \<^verbatim>\<open>type_info\<close> objects of
  \<^verbatim>\<open>typeid(Components)...\<close> in the order of the template arguments.
\<close>

record 'u System =
  componentTypes :: "type_info_ptr list"
  derived :: 'u

definition System_ctor :: "type_info list \<Rightarrow> 'u \<Rightarrow> 'u System" where
  "System_ctor Components u = \<lparr>componentTypes = map Some Components, derived = u\<rparr>"

text \<open>\<^verbatim>\<open>std::all_of\<close>: stops at the first element that fails the predicate.\<close>

fun all_of :: "'a list \<Rightarrow> ('a \<Rightarrow> bool) \<Rightarrow> bool" where
  "all_of [] pred = True"
| "all_of (x # xs) pred = (if pred x then all_of xs pred else False)"

text \<open>
  The virtual \<^verbatim>\<open>logic(Entity&)\<close> is a parameter: it is a member function, so it sees
  and may change the system as well as the entity.
\<close>

type_synonym ('u, 'c) logic = "'u System \<Rightarrow> 'c Entity \<Rightarrow> 'u System \<times> 'c Entity"

definition process :: "('u, 'c) logic \<Rightarrow> 'u System \<Rightarrow> 'c Entity \<Rightarrow> 'u System \<times> 'c Entity" where
  "process logic sys e =
     (if all_of (componentTypes sys) (\<lambda>type. contains e type) then logic sys e else (sys, e))"

text \<open>\<^verbatim>\<open>process(std::vector<Entity>&)\<close>: the range-for loop.\<close>

fun process_vec ::
  "('u, 'c) logic \<Rightarrow> 'u System \<Rightarrow> 'c Entity list \<Rightarrow> 'u System \<times> 'c Entity list" where
  "process_vec logic sys [] = (sys, [])"
| "process_vec logic sys (e # entities) =
     (case process logic sys e of
        (sys', e') \<Rightarrow>
          (case process_vec logic sys' entities of
             (sys'', entities') \<Rightarrow> (sys'', e' # entities')))"

section \<open>Sequences of store operations\<close>

text \<open>
  The operations that change an entity: \<^verbatim>\<open>emplace<T>\<close>, \<^verbatim>\<open>insert<T>\<close> and
  \<^verbatim>\<open>erase\<close>; \<^verbatim>\<open>erase<T>()\<close> is \<open>Erase (Some T)\<close>. \<open>apply_ops ops e\<close> is the entity
  after the operations \<open>ops\<close>, in order, on \<open>e\<close>; \<open>run ops\<close> is the entity that they
  build from a newly constructed one.
\<close>

datatype 'c entity_op =
  Emplace type_info 'c
| Insert type_info "'c option"
| Erase type_info_ptr

fun apply_op :: "'c entity_op \<Rightarrow> 'c Entity \<Rightarrow> 'c Entity" where
  "apply_op (Emplace T c) e = emplace T c e"
| "apply_op (Insert T p) e = insert_T T p e"
| "apply_op (Erase ti) e = erase ti e"

definition apply_ops :: "'c entity_op list \<Rightarrow> 'c Entity \<Rightarrow> 'c Entity" where
  "apply_ops ops e = foldl (\<lambda>e op. apply_op op e) e ops"

definition run :: "'c entity_op list \<Rightarrow> 'c Entity" where
  "run ops = apply_ops ops Entity_ctor"

text \<open>
  What \<^verbatim>\<open>componentMap.emplace\<close> returns as its second component inside an insertion:
  whether the insertion took place.
\<close>

fun op_inserted :: "'c entity_op \<Rightarrow> 'c Entity \<Rightarrow> bool" where
  "op_inserted (Emplace T c) e =
     snd (umap_emplace (componentMap e) (Some T) (MakeComponentPtr (ti_type T) (Some c)))"
| "op_inserted (Insert T p) e =
     snd (umap_emplace (componentMap e) (Some T) (MakeComponentPtr (ti_type T) p))"
| "op_inserted (Erase ti) e = False"

text \<open>
  The words of the uniqueness property, over a sequence of operations and the name
  \<open>T\<close> of a component type: \<open>inserts T op\<close> says that \<open>op\<close> is an insertion of \<open>T\<close>,
  \<open>stores T p op\<close> that it is one that hands over the pointer \<open>p\<close>, \<open>erases T op\<close>
  that \<open>op\<close> erases \<open>T\<close>. \<open>live_insertion T ops\<close>: some insertion of \<open>T\<close> in \<open>ops\<close>
  took place and no later operation erases \<open>T\<close>. \<open>live_insertion_of T p ops\<close>: the
  same for an insertion that hands over \<open>p\<close>.
\<close>

fun inserts :: "string \<Rightarrow> 'c entity_op \<Rightarrow> bool" where
  "inserts T (Emplace T' c) = (ti_type T' = T)"
| "inserts T (Insert T' p) = (ti_type T' = T)"
| "inserts T (Erase ti) = False"

fun stores :: "string \<Rightarrow> 'c option \<Rightarrow> 'c entity_op \<Rightarrow> bool" where
  "stores T p (Emplace T' c) = (ti_type T' = T \<and> p = Some c)"
| "stores T p (Insert T' p') = (ti_type T' = T \<and> p = p')"
| "stores T p (Erase ti) = False"

fun erases :: "string \<Rightarrow> 'c entity_op \<Rightarrow> bool" where
  "erases T (Erase ti) = (case ti of None \<Rightarrow> False | Some T' \<Rightarrow> ti_type T' = T)"
| "erases T (Emplace T' c) = False"
| "erases T (Insert T' p) = False"

definition not_erased_after :: "string \<Rightarrow> 'c entity_op list \<Rightarrow> nat \<Rightarrow> bool" where
  "not_erased_after T ops i =
     list_all (\<lambda>j. \<not> erases T (ops ! j)) [Suc i ..< length ops]"

definition live_insertion :: "string \<Rightarrow> 'c entity_op list \<Rightarrow> bool" where
  "live_insertion T ops =
     list_ex (\<lambda>i. inserts T (ops ! i) \<and> op_inserted (ops ! i) (run (take i ops)) \<and>
                  not_erased_after T ops i)
       [0 ..< length ops]"

definition live_insertion_of :: "string \<Rightarrow> 'c option \<Rightarrow> 'c entity_op list \<Rightarrow> bool" where
  "live_insertion_of T p ops =
     list_ex (\<lambda>i. stores T p (ops ! i) \<and> op_inserted (ops ! i) (run (take i ops)) \<and>
                  not_erased_after T ops i)
       [0 ..< length ops]"

text \<open>A typed \<^verbatim>\<open>get<T>()\<close> that returned a component, as opposed to a null pointer.\<close>

definition non_absent :: "cast_error + 'c option \<Rightarrow> bool" where
  "non_absent r = (case r of Inr (Some c) \<Rightarrow> True | _ \<Rightarrow> False)"

text \<open>The entries of a map that are stored under the identity \<open>k\<close>.\<close>

definition entries_for :: "'c UnderlyingMap \<Rightarrow> type_info_ptr \<Rightarrow> (type_info_ptr \<times> 'c ComponentPtr) list" where
  "entries_for m k = filter (\<lambda>p. EqualReferents (fst p) k) m"

text \<open>
  An entry is well typed when its key is the identity of the type that its pointer was
  handed over as and that its deleter casts to.
\<close>

definition well_typed_entry :: "type_info_ptr \<times> 'c ComponentPtr \<Rightarrow> bool" where
  "well_typed_entry p =
     (case fst p of
        None \<Rightarrow> False
      | Some T \<Rightarrow>
          deleter (snd p) = ti_type T \<and>
          (case get_ptr (snd p) of nullptr \<Rightarrow> True | Ref U c \<Rightarrow> U = ti_type T))"

section \<open>Example types, entities and systems\<close>

definition Position :: type_info where
  "Position = TypeInfo 0 ''Position''"

definition Position' :: type_info where
  "Position' = TypeInfo 1 ''Position''"

definition Velocity :: type_info where
  "Velocity = TypeInfo 2 ''Velocity''"

definition Health :: type_info where
  "Health = TypeInfo 3 ''Health''"

text \<open>A system whose logic appends the entity it is called on to a log of calls.\<close>

definition record_calls :: "('c Entity list, 'c) logic" where
  "record_calls sys e = (sys\<lparr>derived := derived sys @ [e]\<rparr>, e)"

text \<open>A system whose logic counts its calls and erases \<^verbatim>\<open>Velocity\<close> from the entity.\<close>

definition drop_velocity :: "(nat, 'c) logic" where
  "drop_velocity sys e = (sys\<lparr>derived := Suc (derived sys)\<rparr>, erase_T Velocity e)"

text \<open>An entity with a position and a velocity, and one with a position only.\<close>

definition moving :: "nat Entity" where
  "moving = emplace Velocity 1 (emplace Position 0 Entity_ctor)"

definition still :: "nat Entity" where
  "still = emplace Position 0 Entity_ctor"

text \<open>A sequence of operations that inserts, erases and inserts again.\<close>

definition example_ops :: "nat entity_op list" where
  "example_ops = [Emplace Velocity 1, Insert Position None, Erase (Some Position'),
                  Emplace Position' 4, Insert Position (Some 5)]"

section \<open>Key equivalence and the map operations\<close>

lemma EqualReferents_Some [simp]:
  "EqualReferents (Some a) (Some b) = (ti_type a = ti_type b)"
  by (auto simp: EqualReferents_def type_info_eq_def)

lemma EqualReferents_None_left [simp]: "EqualReferents None k = (k = None)"
  by (auto simp: EqualReferents_def)

lemma EqualReferents_None_right [simp]: "EqualReferents k None = (k = None)"
  by (auto simp: EqualReferents_def split: option.splits)

lemma EqualReferents_refl [simp]: "EqualReferents k k"
  by (simp add: EqualReferents_def)

lemma EqualReferents_sym: "EqualReferents a b = EqualReferents b a"
  by (cases a; cases b) auto

lemma EqualReferents_trans:
  "EqualReferents a b \<Longrightarrow> EqualReferents b c \<Longrightarrow> EqualReferents a c"
  by (cases a; cases b; cases c) auto

lemma umap_find_None_iff:
  "umap_find m k = None \<longleftrightarrow> (\<forall>p \<in> set m. \<not> EqualReferents (fst p) k)"
  by (induction m) auto

lemma umap_find_Some_mem:
  "umap_find m k = Some p \<Longrightarrow> p \<in> set m \<and> EqualReferents (fst p) k"
  by (induction m) (auto split: if_splits)

lemma umap_find_equiv:
  "EqualReferents k k' \<Longrightarrow> umap_find m k = umap_find m k'"
proof (induction m)
  case Nil
  then show ?case by simp
next
  case (Cons p ps)
  have "EqualReferents (fst p) k = EqualReferents (fst p) k'"
    using Cons.prems EqualReferents_trans EqualReferents_sym by blast
  with Cons show ?case by simp
qed

lemma umap_find_append:
  "umap_find (m @ n) k = (case umap_find m k of None \<Rightarrow> umap_find n k | Some p \<Rightarrow> Some p)"
  by (induction m) auto

lemma umap_find_erase_same:
  "EqualReferents k k' \<Longrightarrow> umap_find (umap_erase m k) k' = None"
proof -
  assume eq: "EqualReferents k k'"
  have "\<not> EqualReferents (fst p) k'" if "p \<in> set (umap_erase m k)" for p
  proof
    assume "EqualReferents (fst p) k'"
    then have "EqualReferents (fst p) k"
      using eq EqualReferents_trans EqualReferents_sym by blast
    with that show False by (simp add: umap_erase_def)
  qed
  then show ?thesis by (simp add: umap_find_None_iff)
qed

lemma umap_find_erase_other:
  "\<not> EqualReferents k k' \<Longrightarrow> umap_find (umap_erase m k) k' = umap_find m k'"
proof (induction m)
  case Nil
  then show ?case by (simp add: umap_erase_def)
next
  case (Cons p ps)
  then have ih: "umap_find (umap_erase ps k) k' = umap_find ps k'" by simp
  show ?case
  proof (cases "EqualReferents (fst p) k")
    case True
    then have "\<not> EqualReferents (fst p) k'"
      using Cons.prems EqualReferents_trans EqualReferents_sym by blast
    with True ih show ?thesis by (simp add: umap_erase_def)
  next
    case False
    with ih show ?thesis by (simp add: umap_erase_def)
  qed
qed

lemma umap_erase_absent:
  "umap_find m k = None \<Longrightarrow> umap_erase m k = m"
  by (simp add: umap_find_None_iff umap_erase_def)

lemma umap_erase_idem: "umap_erase (umap_erase m k) k = umap_erase m k"
  by (simp add: umap_erase_def)

lemma umap_find_emplace:
  "umap_find (fst (umap_emplace m k v)) k' =
     (case umap_find m k' of
        Some p \<Rightarrow> Some p
      | None \<Rightarrow> if EqualReferents k k' then Some (k, v) else None)"
proof (cases "umap_find m k")
  case None
  then show ?thesis
    by (simp add: umap_emplace_def umap_find_append split: option.splits)
next
  case (Some p)
  show ?thesis
  proof (cases "EqualReferents k k'")
    case True
    then have "umap_find m k' = Some p"
      using Some umap_find_equiv [of k k' m] by simp
    with Some show ?thesis by (simp add: umap_emplace_def)
  next
    case False
    with Some show ?thesis by (simp add: umap_emplace_def split: option.splits)
  qed
qed

lemma umap_emplace_present:
  "umap_find m k \<noteq> None \<Longrightarrow> fst (umap_emplace m k v) = m"
  by (auto simp: umap_emplace_def)

lemma emplace_is_insert: "emplace T c e = insert_T T (Some c) e"
  by (simp add: emplace_def insert_T_def)

lemma find_insert_T:
  "umap_find (componentMap (insert_T T p e)) k' =
     (case umap_find (componentMap e) k' of
        Some q \<Rightarrow> Some q
      | None \<Rightarrow> if EqualReferents (Some T) k'
                then Some (Some T, MakeComponentPtr (ti_type T) p) else None)"
  by (simp add: insert_T_def umap_find_emplace)

lemma insert_T_present:
  "contains_T T' e \<Longrightarrow> ti_type T' = ti_type T \<Longrightarrow> insert_T T p e = e"
proof -
  assume c: "contains_T T' e" and t: "ti_type T' = ti_type T"
  have "umap_find (componentMap e) (Some T) = umap_find (componentMap e) (Some T')"
    using t by (intro umap_find_equiv) simp
  then have "umap_find (componentMap e) (Some T) \<noteq> None"
    using c unfolding contains_T_def contains_def by simp
  then show ?thesis
    by (simp add: insert_T_def umap_emplace_present)
qed

lemmas ecs_defs = Position_def Position'_def Velocity_def Entity_ctor_def emplace_def insert_T_def
  erase_T_def erase_def contains_T_def contains_def get_T_def get_def umap_emplace_def
  umap_erase_def MakeComponentPtr_def static_cast_def EqualReferents_def type_info_eq_def


lemmas sys_defs = moving_def still_def System_ctor_def process_def record_calls_def
  drop_velocity_def

section \<open>Erase\<close>

text \<open>
  C8. \<^verbatim>\<open>erase<T>()\<close> is total and idempotent: on an entity that contains no \<^verbatim>\<open>T\<close> it
  leaves the store as it is, erasing twice gives the same store as erasing once, and
  after one or two calls \<^verbatim>\<open>contains<T>()\<close> is false. This holds for every store, and
  also when the calls name \<^verbatim>\<open>T\<close> through different \<^verbatim>\<open>type_info\<close> objects of the same
  type.
\<close>

theorem erase_idempotent:
  "(\<not> contains_T T e \<longrightarrow> erase_T T e = e) \<and>
   erase_T T (erase_T T e) = erase_T T e \<and>
   \<not> contains_T T (erase_T T e) \<and>
   \<not> contains_T T (erase_T T (erase_T T e)) \<and>
   (ti_type T' = ti_type T \<longrightarrow>
      erase_T T' (erase_T T e) = erase_T T e \<and> \<not> contains_T T' (erase_T T e))"
proof -
  have a: "\<not> contains_T T e \<longrightarrow> erase_T T e = e"
  proof
    assume "\<not> contains_T T e"
    then have "umap_find (componentMap e) (Some T) = None"
      unfolding contains_T_def contains_def by blast
    then have "umap_erase (componentMap e) (Some T) = componentMap e"
      by (rule umap_erase_absent)
    then show "erase_T T e = e"
      by (simp add: erase_T_def erase_def)
  qed
  have b: "erase_T T (erase_T T e) = erase_T T e"
    by (simp add: erase_T_def erase_def umap_erase_idem)
  have c: "\<not> contains_T T' (erase_T T e)" if "ti_type T' = ti_type T" for T'
    using that
    by (simp add: contains_T_def contains_def erase_T_def erase_def umap_find_erase_same)
  have d: "erase_T T' (erase_T T e) = erase_T T e" if "ti_type T' = ti_type T" for T'
  proof -
    have "\<not> contains_T T' (erase_T T e)" using that by (rule c)
    then have "umap_find (componentMap (erase_T T e)) (Some T') = None"
      unfolding contains_T_def contains_def by blast
    then show ?thesis
      by (simp add: erase_T_def erase_def umap_erase_absent)
  qed
  from a b c [of T] c d show ?thesis by (simp add: b)
qed


theorem erase_idempotent_witness:
  "\<not> contains_T Position (emplace Velocity (7::nat) Entity_ctor) \<and>
   erase_T Position (emplace Velocity (7::nat) Entity_ctor) = emplace Velocity 7 Entity_ctor \<and>
   ti_type Position' = ti_type Position \<and>
   erase_T Position' (erase_T Position (emplace Velocity (7::nat) Entity_ctor)) =
     erase_T Position (emplace Velocity (7::nat) Entity_ctor)"
  using erase_idempotent [of Position "emplace Velocity (7::nat) Entity_ctor" Position']
  by (simp add: ecs_defs)

section \<open>Insertion\<close>

lemma find_kept_apply_op:
  assumes "umap_find (componentMap e) (Some T) = Some q" and "\<not> erases (ti_type T) op"
  shows "umap_find (componentMap (apply_op op e)) (Some T) = Some q"
proof (cases op)
  case (Emplace T' c)
  with assms show ?thesis by (simp add: emplace_is_insert find_insert_T)
next
  case (Insert T' p)
  with assms show ?thesis by (simp add: find_insert_T)
next
  case (Erase ti)
  with assms have "\<not> EqualReferents ti (Some T)"
    by (cases ti) simp_all
  with Erase assms show ?thesis
    by (simp add: erase_def umap_find_erase_other)
qed

lemma find_kept_apply_ops:
  "umap_find (componentMap e) (Some T) = Some q \<Longrightarrow>
   list_all (\<lambda>op. \<not> erases (ti_type T) op) ops \<Longrightarrow>
   umap_find (componentMap (apply_ops ops e)) (Some T) = Some q"
proof (induction ops arbitrary: e)
  case Nil
  then show ?case by (simp add: apply_ops_def)
next
  case (Cons op ops)
  from Cons.prems have "umap_find (componentMap (apply_op op e)) (Some T) = Some q"
    by (simp add: find_kept_apply_op)
  from Cons.IH [OF this] Cons.prems(2) show ?case
    by (simp add: apply_ops_def)
qed

text \<open>
  C2. Insertion is insert-or-no-op, the first writer wins: on an entity with no
  component of type \<^verbatim>\<open>T\<close>, after an insertion of the instance \<open>A\<close> and then of a
  different instance \<open>B\<close>, each through \<^verbatim>\<open>insert<T>\<close> or \<^verbatim>\<open>emplace<T>\<close>, with any
  operations between them that do not erase \<^verbatim>\<open>T\<close>, \<^verbatim>\<open>get<T>()\<close> returns \<open>A\<close> and
  not \<open>B\<close>, and the second insertion leaves the store as it found it. The calls may
  name \<^verbatim>\<open>T\<close> through different \<^verbatim>\<open>type_info\<close> objects of that type.
\<close>

theorem insert_first_writer_wins:
  assumes absent: "\<not> contains_T T e"
    and distinct: "A \<noteq> B"
    and T1: "ti_type T1 = ti_type T" and T2: "ti_type T2 = ti_type T"
    and first: "first \<in> {insert_T T1 (Some A), emplace T1 A}"
    and second: "second \<in> {insert_T T2 (Some B), emplace T2 B}"
    and between: "list_all (\<lambda>op. \<not> erases (ti_type T) op) between"
  shows "get_T T (second (apply_ops between (first e))) = Inr (Some A) \<and>
         get_T T (second (apply_ops between (first e))) \<noteq> Inr (Some B) \<and>
         second (apply_ops between (first e)) = apply_ops between (first e)"
proof -
  let ?e1 = "first e" and ?e2 = "apply_ops between (first e)"
  have f: "?e1 = insert_T T1 (Some A) e"
    using first by (auto simp: emplace_is_insert)
  have s: "second ?e2 = insert_T T2 (Some B) ?e2"
    using second by (auto simp: emplace_is_insert)
  have "umap_find (componentMap e) (Some T) = None"
    using absent unfolding contains_T_def contains_def by blast
  then have "umap_find (componentMap ?e1) (Some T) =
             Some (Some T1, MakeComponentPtr (ti_type T) (Some A))"
    using T1 by (simp add: f find_insert_T)
  then have k: "umap_find (componentMap ?e2) (Some T) =
             Some (Some T1, MakeComponentPtr (ti_type T) (Some A))"
    using between by (rule find_kept_apply_ops)
  then have g: "get_T T ?e2 = Inr (Some A)" and c: "contains_T T ?e2"
    by (simp_all add: get_T_def get_def contains_T_def contains_def static_cast_def
        MakeComponentPtr_def)
  have same: "second ?e2 = ?e2"
    using s insert_T_present [OF c, of T2 "Some B"] T2 by simp
  with g distinct show ?thesis by simp
qed

theorem insert_first_writer_wins_witness:
  "\<not> contains_T Position (emplace Velocity (7::nat) Entity_ctor) \<and> (1::nat) \<noteq> 2 \<and>
   ti_type Position' = ti_type Position \<and>
   list_all (\<lambda>op. \<not> erases (ti_type Position) op)
     [Erase (Some Velocity), Insert Position' (Some (3::nat)), Emplace Health 9] \<and>
   get_T Position
     (emplace Position' (2::nat)
       (apply_ops [Erase (Some Velocity), Insert Position' (Some 3), Emplace Health 9]
         (insert_T Position (Some 1) (emplace Velocity (7::nat) Entity_ctor))))
     = Inr (Some 1)"
  using insert_first_writer_wins [of Position "emplace Velocity (7::nat) Entity_ctor" 1 2
      Position Position' "insert_T Position (Some 1)" "emplace Position' 2"
      "[Erase (Some Velocity), Insert Position' (Some 3), Emplace Health 9]"]
  by (simp add: ecs_defs apply_ops_def Health_def)

section \<open>Systems\<close>

lemma all_of_iff: "all_of xs pred \<longleftrightarrow> (\<forall>x \<in> set xs. pred x)"
  by (induction xs) auto

lemma process_eq:
  "process logic sys e =
     (if \<forall>ti \<in> set (componentTypes sys). contains e ti then logic sys e else (sys, e))"
  by (simp add: process_def all_of_iff)

lemma process_vec_Cons:
  "process_vec logic sys (e # es) =
     (fst (process_vec logic (fst (process logic sys e)) es),
      snd (process logic sys e) # snd (process_vec logic (fst (process logic sys e)) es))"
  by (simp split: prod.splits)

lemma length_process_vec:
  "length (snd (process_vec logic sys es)) = length es"
  by (induction es arbitrary: sys) (simp_all add: process_vec_Cons del: process_vec.simps(2))

lemma process_vec_nth:
  "i < length es \<Longrightarrow>
   snd (process_vec logic sys es) ! i =
     snd (process logic (fst (process_vec logic sys (take i es))) (es ! i))"
proof (induction es arbitrary: sys i)
  case Nil
  then show ?case by simp
next
  case (Cons e es)
  show ?case
  proof (cases i)
    case 0
    then show ?thesis by (simp add: process_vec_Cons del: process_vec.simps(2))
  next
    case (Suc k)
    with Cons.prems have "k < length es" by simp
    from Cons.IH [OF this] Suc show ?thesis
      by (simp add: process_vec_Cons del: process_vec.simps(2))
  qed
qed

lemma process_componentTypes:
  "componentTypes (fst (process logic sys e)) =
     (if all_of (componentTypes sys) (contains e)
      then componentTypes (fst (logic sys e)) else componentTypes sys)"
  by (simp add: process_def)

lemma process_vec_componentTypes:
  "\<forall>s e. componentTypes (fst (logic s e)) = componentTypes s \<Longrightarrow>
   componentTypes (fst (process_vec logic sys es)) = componentTypes sys"
proof (induction es arbitrary: sys)
  case Nil
  then show ?case by simp
next
  case (Cons e es)
  have "componentTypes (fst (process logic sys e)) = componentTypes sys"
    using Cons.prems by (simp add: process_componentTypes)
  with Cons.IH [OF Cons.prems, of "fst (process logic sys e)"] show ?case
    by (simp add: process_vec_Cons del: process_vec.simps(2))
qed

lemma process_vec_append:
  "process_vec logic sys (es1 @ es2) =
     (fst (process_vec logic (fst (process_vec logic sys es1)) es2),
      snd (process_vec logic sys es1) @ snd (process_vec logic (fst (process_vec logic sys es1)) es2))"
  by (induction es1 arbitrary: sys) (simp_all add: process_vec_Cons del: process_vec.simps(2))

lemma process_vec_skip:
  assumes "\<not> all_of (componentTypes (fst (process_vec logic sys es1))) (contains e)"
  shows "process_vec logic sys (es1 @ e # es2) =
     (fst (process_vec logic sys (es1 @ es2)),
      snd (process_vec logic sys es1) @ e #
        snd (process_vec logic (fst (process_vec logic sys es1)) es2))"
proof -
  have "process logic (fst (process_vec logic sys es1)) e = (fst (process_vec logic sys es1), e)"
    using assms by (simp add: process_def)
  then show ?thesis
    by (simp add: process_vec_append process_vec_Cons del: process_vec.simps(2))
qed

text \<open>
  C1. For a system with any list of required types and any entity \<open>e\<close>,
  \<^verbatim>\<open>process(e)\<close> is the call \<^verbatim>\<open>logic(e)\<close> if \<^verbatim>\<open>e.contains(Ti)\<close> holds for every
  required identity, and otherwise does nothing: system and entity are returned as they
  were. With no required types \<^verbatim>\<open>logic(e)\<close> is always called. The last conjunct
  observes the call through a logic that logs the entities it is called on.
\<close>

theorem process_invokes_logic_iff:
  "process logic sys e =
     (if \<forall>ti \<in> set (componentTypes sys). contains e ti then logic sys e else (sys, e)) \<and>
   process logic (System_ctor Ts u) e =
     (if \<forall>T \<in> set Ts. contains_T T e then logic (System_ctor Ts u) e
      else (System_ctor Ts u, e)) \<and>
   process logic (System_ctor [] u) e = logic (System_ctor [] u) e \<and>
   derived (fst (process record_calls rsys e)) =
     (if \<forall>ti \<in> set (componentTypes rsys). contains e ti then derived rsys @ [e]
      else derived rsys)"
  by (simp add: process_eq System_ctor_def contains_T_def record_calls_def)

theorem process_invokes_logic_iff_witness:
  "all_of (componentTypes (System_ctor [Position, Velocity] (0::nat))) (contains moving) \<and>
   process drop_velocity (System_ctor [Position, Velocity] 0) moving =
     (System_ctor [Position, Velocity] 1, still) \<and>
   \<not> all_of (componentTypes (System_ctor [Position, Velocity] (0::nat))) (contains still) \<and>
   process drop_velocity (System_ctor [Position, Velocity] 0) still =
     (System_ctor [Position, Velocity] 0, still) \<and>
   derived (fst (process record_calls (System_ctor [Position, Velocity] []) moving)) = [moving]"
  using process_invokes_logic_iff [of drop_velocity "System_ctor [Position, Velocity] 0" moving
      "[Position, Velocity]" 0 "System_ctor [Position, Velocity] []"]
    process_invokes_logic_iff [of drop_velocity "System_ctor [Position, Velocity] 0" still
      "[Position, Velocity]" 0 "System_ctor [Position, Velocity] []"]
  by (simp add: sys_defs ecs_defs)

text \<open>
  C6. Filtering is read-only: when the entity lacks one of the required types,
  \<^verbatim>\<open>process(e)\<close> returns the entity, and the system, unchanged, whatever the logic is.
  The membership test \<open>contains\<close> itself only returns a truth value.
\<close>

theorem process_filter_read_only:
  "(\<not> (\<forall>ti \<in> set (componentTypes sys). contains e ti) \<longrightarrow>
      snd (process logic sys e) = e \<and> fst (process logic sys e) = sys) \<and>
   ((\<exists>T \<in> set Ts. \<not> contains_T T e) \<longrightarrow>
      snd (process logic (System_ctor Ts u) e) = e)"
  by (auto simp add: process_eq System_ctor_def contains_T_def)

theorem process_filter_read_only_witness:
  "\<not> all_of (componentTypes (System_ctor [Position, Velocity] (0::nat))) (contains still) \<and>
   \<not> contains_T Velocity still \<and>
   snd (process drop_velocity (System_ctor [Position, Velocity] 0) still) = still \<and>
   fst (process drop_velocity (System_ctor [Position, Velocity] 0) still) =
     System_ctor [Position, Velocity] 0"
  using process_filter_read_only [of "System_ctor [Position, Velocity] 0" still drop_velocity
      "[Position, Velocity]" 0]
  by (simp add: sys_defs ecs_defs)

text \<open>
  C5. \<^verbatim>\<open>process(sequence)\<close> applies \<^verbatim>\<open>process(entity)\<close> to each entity once, in the
  order of the sequence, and never stops early: the result has an entity for each entity
  of the sequence, the one at index \<open>i\<close> is what \<^verbatim>\<open>process\<close> makes of the entity at
  index \<open>i\<close>, run on the system as the entities before it left it, and the final system
  is the left fold of \<^verbatim>\<open>process\<close>. For a logic that leaves \<open>componentTypes\<close> alone,
  whether the logic runs on the entity at index \<open>i\<close> depends on that entity only, not
  on what happened to the entities before it; and the logging logic is called on the
  entities that pass the filter, each once, in order. For every logic, an entity that
  fails the filter is handed back as it is and the entities after it are processed as
  if it were not in the sequence.
\<close>

theorem process_vec_each_once_in_order:
  "length (snd (process_vec logic sys es)) = length es \<and>
   (\<forall>i < length es.
      snd (process_vec logic sys es) ! i =
        snd (process logic (fst (process_vec logic sys (take i es))) (es ! i))) \<and>
   fst (process_vec logic sys es) = foldl (\<lambda>s e. fst (process logic s e)) sys es \<and>
   ((\<forall>s e. componentTypes (fst (logic s e)) = componentTypes s) \<longrightarrow>
      (\<forall>i < length es.
         snd (process_vec logic sys es) ! i =
           (if \<forall>ti \<in> set (componentTypes sys). contains (es ! i) ti
            then snd (logic (fst (process_vec logic sys (take i es))) (es ! i))
            else es ! i))) \<and>
   (\<not> all_of (componentTypes (fst (process_vec logic sys es1))) (contains e) \<longrightarrow>
      process_vec logic sys (es1 @ e # es2) =
        (fst (process_vec logic sys (es1 @ es2)),
         snd (process_vec logic sys es1) @ e #
           snd (process_vec logic (fst (process_vec logic sys es1)) es2))) \<and>
   derived (fst (process_vec record_calls rsys es)) =
     derived rsys @ filter (\<lambda>e. \<forall>ti \<in> set (componentTypes rsys). contains e ti) es"
proof -
  have a: "fst (process_vec logic sys es) = foldl (\<lambda>s e. fst (process logic s e)) sys es"
    by (induction es arbitrary: sys) (simp_all add: process_vec_Cons del: process_vec.simps(2))
  have b: "snd (process_vec logic sys es) ! i =
           (if \<forall>ti \<in> set (componentTypes sys). contains (es ! i) ti
            then snd (logic (fst (process_vec logic sys (take i es))) (es ! i))
            else es ! i)"
    if pres: "\<forall>s e. componentTypes (fst (logic s e)) = componentTypes s" and i: "i < length es"
    for i
  proof -
    have "componentTypes (fst (process_vec logic sys (take i es))) = componentTypes sys"
      using pres by (rule process_vec_componentTypes)
    then show ?thesis
      using process_vec_nth [OF i, of logic sys] by (simp add: process_eq)
  qed
  have c: "derived (fst (process_vec record_calls rsys es)) =
     derived rsys @ filter (\<lambda>e. \<forall>ti \<in> set (componentTypes rsys). contains e ti) es"
    for rsys
  proof (induction es arbitrary: rsys)
    case Nil
    then show ?case by simp
  next
    case (Cons e es)
    have ct: "componentTypes (fst (process record_calls rsys e)) = componentTypes rsys"
      by (simp add: process_eq record_calls_def)
    have d: "derived (fst (process record_calls rsys e)) =
             (if \<forall>ti \<in> set (componentTypes rsys). contains e ti then derived rsys @ [e]
              else derived rsys)"
      by (simp add: process_eq record_calls_def)
    show ?case
      using Cons.IH [of "fst (process record_calls rsys e)"] ct d
      by (simp add: process_vec_Cons del: process_vec.simps(2))
  qed
  have d: "\<not> all_of (componentTypes (fst (process_vec logic sys es1))) (contains e) \<longrightarrow>
      process_vec logic sys (es1 @ e # es2) =
        (fst (process_vec logic sys (es1 @ es2)),
         snd (process_vec logic sys es1) @ e #
           snd (process_vec logic (fst (process_vec logic sys es1)) es2))"
    using process_vec_skip by blast
  show ?thesis
    using a b c d by (simp add: length_process_vec process_vec_nth)
qed

theorem process_vec_each_once_in_order_witness:
  "\<not> all_of (componentTypes (fst (process_vec drop_velocity
        (System_ctor [Position, Velocity] 0) [moving]))) (contains still) \<and>
   snd (process_vec drop_velocity (System_ctor [Position, Velocity] 0) [moving, still, moving])
     = [still, still, still] \<and>
   derived (fst (process_vec drop_velocity (System_ctor [Position, Velocity] 0)
     [moving, still, moving])) = 2 \<and>
   derived (fst (process_vec record_calls (System_ctor [Position, Velocity] [])
     [moving, still, moving])) = [moving, moving]"
proof -
  have h: "\<forall>s e. componentTypes (fst (drop_velocity s (e :: nat Entity))) = componentTypes s"
    by (simp add: drop_velocity_def)
  show ?thesis
    using h process_vec_each_once_in_order [of drop_velocity
        "System_ctor [Position, Velocity] 0" "[moving, still, moving]"
        "[moving]" still "[moving]" "System_ctor [Position, Velocity] []"]
    by (simp add: sys_defs ecs_defs)
qed

text \<open>
  C7. After construction the required-type list of a system is the list of the
  identities of its component types, in the order of declaration. \<^verbatim>\<open>process\<close> on an
  entity and on a sequence do not change it: after \<^verbatim>\<open>process(e)\<close> the list is what
  the logic left, or the old one when the logic was not called, so with a logic that
  does not assign to \<open>componentTypes\<close> the list after \<^verbatim>\<open>process\<close> of an entity or
  of a sequence is the list before.
\<close>

theorem componentTypes_fixed:
  "componentTypes (System_ctor Ts u) = map Some Ts \<and>
   componentTypes (fst (process logic sys e)) =
     (if \<forall>ti \<in> set (componentTypes sys). contains e ti
      then componentTypes (fst (logic sys e)) else componentTypes sys) \<and>
   ((\<forall>s e. componentTypes (fst (logic s e)) = componentTypes s) \<longrightarrow>
      componentTypes (fst (process logic sys e)) = componentTypes sys \<and>
      componentTypes (fst (process_vec logic sys es)) = componentTypes sys)"
  by (simp add: System_ctor_def process_eq process_vec_componentTypes)

theorem componentTypes_fixed_witness:
  "componentTypes (System_ctor [Position, Velocity] (0::nat)) = [Some Position, Some Velocity] \<and>
   componentTypes (fst (process drop_velocity (System_ctor [Position, Velocity] 0) moving)) =
     [Some Position, Some Velocity] \<and>
   componentTypes (fst (process_vec drop_velocity (System_ctor [Position, Velocity] 0)
     [moving, still, moving])) = [Some Position, Some Velocity]"
proof -
  have h: "\<forall>s e. componentTypes (fst (drop_velocity s (e :: nat Entity))) = componentTypes s"
    by (simp add: drop_velocity_def)
  show ?thesis
    using h componentTypes_fixed [of "[Position, Velocity]" 0 drop_velocity
        "System_ctor [Position, Velocity] 0" moving "[moving, still, moving]"]
    by (simp add: System_ctor_def)
qed

section \<open>Frame of the store operations\<close>

lemma frame_find_insert_T:
  "ti_type T \<noteq> ti_type U \<Longrightarrow>
   umap_find (componentMap (insert_T T p e)) (Some U) = umap_find (componentMap e) (Some U)"
  by (simp add: find_insert_T split: option.splits)

lemma frame_find_erase_T:
  "ti_type T \<noteq> ti_type U \<Longrightarrow>
   umap_find (componentMap (erase_T T e)) (Some U) = umap_find (componentMap e) (Some U)"
  by (simp add: erase_T_def erase_def umap_find_erase_other)

text \<open>
  C9. Frame property of the mutations of one type: for types \<^verbatim>\<open>T\<close> and \<^verbatim>\<open>U\<close> that
  differ, \<^verbatim>\<open>emplace<T>\<close>, \<^verbatim>\<open>insert<T>\<close> and \<^verbatim>\<open>erase<T>\<close> leave the entry of
  \<^verbatim>\<open>U\<close> as it was: \<^verbatim>\<open>contains<U>()\<close> and \<^verbatim>\<open>get<U>()\<close> return the same before
  and after.
\<close>

theorem single_type_mutation_frame:
  assumes "ti_type T \<noteq> ti_type U"
    and "op \<in> {emplace T c, insert_T T p, erase_T T}"
  shows "contains_T U (op e) = contains_T U e \<and>
         get_T U (op e) = get_T U e \<and>
         get (op e) (Some U) = get e (Some U) \<and>
         umap_find (componentMap (op e)) (Some U) = umap_find (componentMap e) (Some U)"
proof -
  have "umap_find (componentMap (op e)) (Some U) = umap_find (componentMap e) (Some U)"
    using assms frame_find_insert_T [of T U] frame_find_erase_T [of T U]
    by (auto simp: emplace_is_insert)
  then show ?thesis
    by (simp add: contains_T_def contains_def get_T_def get_def)
qed


theorem single_type_mutation_frame_witness:
  "ti_type Velocity \<noteq> ti_type Position \<and>
   contains_T Position (erase_T Velocity moving) = contains_T Position moving \<and>
   get_T Position (erase_T Velocity moving) = Inr (Some 0) \<and>
   get_T Position (emplace Velocity 5 still) = Inr (Some 0) \<and>
   get_T Position (insert_T Velocity None still) = get_T Position still"
  using single_type_mutation_frame [of Velocity Position "erase_T Velocity" 5 None moving]
    single_type_mutation_frame [of Velocity Position "emplace Velocity 5" 5 None still]
    single_type_mutation_frame [of Velocity Position "insert_T Velocity None" 5 None still]
  by (simp add: sys_defs ecs_defs)

section \<open>Stores built by the operations\<close>

lemma run_Nil [simp]: "run [] = Entity_ctor"
  by (simp add: run_def apply_ops_def)

lemma run_snoc [simp]: "run (ops @ [op]) = apply_op op (run ops)"
  by (simp add: run_def apply_ops_def)

lemma well_typed_MakeComponentPtr: "well_typed_entry (Some T, MakeComponentPtr (ti_type T) p)"
  by (simp add: well_typed_entry_def MakeComponentPtr_def split: option.splits)

lemma well_typed_insert_T:
  "list_all well_typed_entry (componentMap e) \<Longrightarrow>
   list_all well_typed_entry (componentMap (insert_T T p e))"
  by (simp add: insert_T_def umap_emplace_def well_typed_MakeComponentPtr split: option.splits)

lemma well_typed_erase:
  "list_all well_typed_entry (componentMap e) \<Longrightarrow>
   list_all well_typed_entry (componentMap (erase ti e))"
  by (simp add: erase_def umap_erase_def list_all_iff)

lemma well_typed_apply_op:
  "list_all well_typed_entry (componentMap e) \<Longrightarrow>
   list_all well_typed_entry (componentMap (apply_op op e))"
  by (cases op) (simp_all add: emplace_is_insert well_typed_insert_T well_typed_erase)

lemma well_typed_run: "list_all well_typed_entry (componentMap (run ops))"
  by (induction ops rule: rev_induct) (simp_all add: Entity_ctor_def well_typed_apply_op)

lemma well_typed_entry_repr:
  "well_typed_entry q \<Longrightarrow> \<exists>T' p'. q = (Some T', MakeComponentPtr (ti_type T') p')"
proof -
  assume wt: "well_typed_entry q"
  obtain k cp where q: "q = (k, cp)" by (cases q)
  from wt q obtain T' where k: "k = Some T'" and d: "deleter cp = ti_type T'"
    and g: "get_ptr cp = nullptr \<or> (\<exists>c. get_ptr cp = Ref (ti_type T') c)"
    by (auto simp: well_typed_entry_def split: option.splits Component_ptr.splits)
  from g show ?thesis
  proof
    assume "get_ptr cp = nullptr"
    with d have "cp = MakeComponentPtr (ti_type T') None"
      by (simp add: MakeComponentPtr_def)
    with q k show ?thesis by blast
  next
    assume "\<exists>c. get_ptr cp = Ref (ti_type T') c"
    then obtain c where "get_ptr cp = Ref (ti_type T') c" ..
    with d have "cp = MakeComponentPtr (ti_type T') (Some c)"
      by (simp add: MakeComponentPtr_def)
    with q k show ?thesis by blast
  qed
qed

lemma find_run_repr:
  assumes "umap_find (componentMap (run ops)) (Some T) = Some q"
  shows "\<exists>T' p'. q = (Some T', MakeComponentPtr (ti_type T) p') \<and> ti_type T' = ti_type T"
proof -
  from assms have m: "q \<in> set (componentMap (run ops))" and e: "EqualReferents (fst q) (Some T)"
    using umap_find_Some_mem by blast+
  from m well_typed_run [of ops] have "well_typed_entry q"
    by (simp add: list_all_iff)
  then obtain T' p' where q: "q = (Some T', MakeComponentPtr (ti_type T') p')"
    using well_typed_entry_repr by blast
  with e have "ti_type T' = ti_type T" by simp
  with q show ?thesis by auto
qed

lemma static_cast_MakeComponentPtr:
  "static_cast T (get_ptr (MakeComponentPtr T p)) = Inr p"
  by (simp add: static_cast_def MakeComponentPtr_def split: option.splits)

text \<open>
  The error branch of the cast is not empty: on a store that holds, under the identity
  of one type, a pointer handed over as another type, the typed \<open>get_T\<close> fails. No
  sequence of operations builds such a store, as the theorem after it shows.
\<close>

lemma bad_cast_on_ill_typed_store:
  "get_T Position \<lparr>componentMap = [(Some Position, MakeComponentPtr ''Velocity'' (Some (0::nat)))]\<rparr>
     = Inl Bad_cast"
  by (simp add: ecs_defs)

text \<open>
  C4. Typed-restore safety: in every entity state that the public operations build,
  each entry is stored under the identity of the type its pointer was handed over as (and
  its deleter casts to), so the narrowing cast in \<^verbatim>\<open>get<T>()\<close> is always valid: it
  never meets an object of another type. \<^verbatim>\<open>get<T>()\<close> returns null when the untyped
  \<open>get\<close> does, and otherwise the object the untyped \<open>get\<close> refers to, which was
  handed over as a \<^verbatim>\<open>T\<close>.
\<close>

theorem typed_restore_safe:
  "list_all well_typed_entry (componentMap (run ops)) \<and>
   get_T T (run ops) \<noteq> Inl Bad_cast \<and>
   (case get (run ops) (Some T) of
      nullptr \<Rightarrow> get_T T (run ops) = Inr None
    | Ref U c \<Rightarrow> U = ti_type T \<and> get_T T (run ops) = Inr (Some c))"
proof (cases "umap_find (componentMap (run ops)) (Some T)")
  case None
  then show ?thesis
    by (simp add: well_typed_run get_T_def get_def static_cast_def)
next
  case (Some q)
  then obtain T' p' where q: "q = (Some T', MakeComponentPtr (ti_type T) p')"
    using find_run_repr by blast
  with Some have g: "get (run ops) (Some T) = get_ptr (MakeComponentPtr (ti_type T) p')"
    by (simp add: get_def)
  then have "get_T T (run ops) = Inr p'"
    by (simp add: get_T_def static_cast_MakeComponentPtr)
  with g show ?thesis
    by (cases p') (simp_all add: well_typed_run MakeComponentPtr_def)
qed

text \<open>
  C10. The accessors by identity are total on the null identity: in every entity state
  that the public operations build, no entry is stored under the null identity, so
  \<open>get\<close> of the null pointer returns null and \<open>contains\<close> of the null pointer
  returns false; and the hash of the null identity is 0, whatever \<^verbatim>\<open>hash_code\<close> is,
  which is not applied.
\<close>

theorem null_identity_total:
  "get (run ops) None = nullptr \<and>
   \<not> contains (run ops) None \<and>
   HashTypeInfoReferents hash_code None = 0"
proof -
  have "fst q \<noteq> None" if "q \<in> set (componentMap (run ops))" for q
  proof -
    from that well_typed_run [of ops] have "well_typed_entry q"
      by (simp add: list_all_iff)
    then show ?thesis
      by (auto simp: well_typed_entry_def split: option.splits)
  qed
  then have "umap_find (componentMap (run ops)) None = None"
    by (simp add: umap_find_None_iff)
  then show ?thesis
    by (simp add: get_def contains_def HashTypeInfoReferents_def)
qed

section \<open>Uniqueness and presence\<close>

text \<open>
  C3 as it is stated fails: \<^verbatim>\<open>insert<T>\<close> takes a pointer and stores it as it is.
  After the insertion of a null pointer into a new entity, the insertion took place and
  nothing erased it, \<^verbatim>\<open>contains<T>()\<close> is true, and \<^verbatim>\<open>get<T>()\<close> returns null.
\<close>

theorem uniqueness_presence_counterexample:
  "\<not> ((contains_T Position (run [Insert Position (None :: nat option)]) \<and>
        non_absent (get_T Position (run [Insert Position (None :: nat option)]))) \<longleftrightarrow>
       live_insertion ''Position'' [Insert Position (None :: nat option)])"
  by (simp add: ecs_defs run_def apply_ops_def live_insertion_def not_erased_after_def
      non_absent_def)

lemma not_erased_after_snoc:
  "i < length ops \<Longrightarrow>
   not_erased_after T (ops @ [op]) i = (not_erased_after T ops i \<and> \<not> erases T op)"
  by (auto simp: not_erased_after_def list_all_iff nth_append)

lemma not_erased_after_last: "not_erased_after T (ops @ [op]) (length ops)"
  by (simp add: not_erased_after_def)

lemma live_snoc_gen:
  "list_ex (\<lambda>i. Q ((ops @ [op]) ! i) \<and> op_inserted ((ops @ [op]) ! i) (run (take i (ops @ [op]))) \<and>
                 not_erased_after T (ops @ [op]) i) [0 ..< length (ops @ [op])] =
   ((list_ex (\<lambda>i. Q (ops ! i) \<and> op_inserted (ops ! i) (run (take i ops)) \<and>
                  not_erased_after T ops i) [0 ..< length ops] \<and> \<not> erases T op) \<or>
    (Q op \<and> op_inserted op (run ops)))"
  by (auto simp: list_ex_iff nth_append not_erased_after_snoc not_erased_after_last)

lemma live_insertion_of_snoc:
  "live_insertion_of T p (ops @ [op]) =
     ((live_insertion_of T p ops \<and> \<not> erases T op) \<or> (stores T p op \<and> op_inserted op (run ops)))"
  unfolding live_insertion_of_def by (rule live_snoc_gen)

lemma inserts_iff_stores: "inserts T op \<longleftrightarrow> (\<exists>p. stores T p op)"
  by (cases op) auto

lemma live_insertion_iff_of: "live_insertion T ops \<longleftrightarrow> (\<exists>p. live_insertion_of T p ops)"
  unfolding live_insertion_def live_insertion_of_def list_ex_iff inserts_iff_stores
  by blast

lemma MakeComponentPtr_inject [simp]:
  "MakeComponentPtr T p = MakeComponentPtr T p' \<longleftrightarrow> p = p'"
  by (auto simp: MakeComponentPtr_def split: option.splits)

lemma snd_umap_emplace: "snd (umap_emplace m k v) \<longleftrightarrow> umap_find m k = None"
  by (simp add: umap_emplace_def split: option.splits)

lemma live_step_Insert:
  assumes ih: "\<And>p. live_insertion_of (ti_type T) p ops \<longleftrightarrow>
      (\<exists>k. umap_find (componentMap (run ops)) (Some T) = Some (k, MakeComponentPtr (ti_type T) p))"
  shows "live_insertion_of (ti_type T) p (ops @ [Insert T' p']) \<longleftrightarrow>
      (\<exists>k. umap_find (componentMap (insert_T T' p' (run ops))) (Some T) =
             Some (k, MakeComponentPtr (ti_type T) p))"
proof (cases "ti_type T' = ti_type T")
  case False
  then show ?thesis
    by (simp add: live_insertion_of_snoc ih frame_find_insert_T)
next
  case True
  then have eq: "umap_find (componentMap (run ops)) (Some T') =
                 umap_find (componentMap (run ops)) (Some T)"
    by (intro umap_find_equiv) simp
  show ?thesis
  proof (cases "umap_find (componentMap (run ops)) (Some T)")
    case None
    then have "\<not> live_insertion_of (ti_type T) p ops" by (simp add: ih)
    with None True eq show ?thesis
      by (auto simp: live_insertion_of_snoc snd_umap_emplace find_insert_T)
  next
    case (Some q)
    with True eq show ?thesis
      by (simp add: live_insertion_of_snoc snd_umap_emplace find_insert_T ih)
  qed
qed

lemma live_step_Erase:
  assumes ih: "\<And>p. live_insertion_of (ti_type T) p ops \<longleftrightarrow>
      (\<exists>k. umap_find (componentMap (run ops)) (Some T) = Some (k, MakeComponentPtr (ti_type T) p))"
  shows "live_insertion_of (ti_type T) p (ops @ [Erase ti]) \<longleftrightarrow>
      (\<exists>k. umap_find (componentMap (erase ti (run ops))) (Some T) =
             Some (k, MakeComponentPtr (ti_type T) p))"
proof (cases "EqualReferents ti (Some T)")
  case True
  then have "erases (ti_type T) (Erase ti :: 'a entity_op)"
    by (cases ti) simp_all
  with True show ?thesis
    by (simp add: live_insertion_of_snoc erase_def umap_find_erase_same)
next
  case False
  then have "\<not> erases (ti_type T) (Erase ti :: 'a entity_op)"
    by (cases ti) simp_all
  with False show ?thesis
    by (simp add: live_insertion_of_snoc erase_def umap_find_erase_other ih)
qed

lemma find_run_char:
  "live_insertion_of (ti_type T) p ops \<longleftrightarrow>
     (\<exists>k. umap_find (componentMap (run ops)) (Some T) = Some (k, MakeComponentPtr (ti_type T) p))"
proof (induction ops arbitrary: p rule: rev_induct)
  case Nil
  then show ?case by (simp add: live_insertion_of_def Entity_ctor_def)
next
  case (snoc op ops)
  show ?case
  proof (cases op)
    case (Emplace T' c)
    have "live_insertion_of (ti_type T) p (ops @ [Emplace T' c]) =
          live_insertion_of (ti_type T) p (ops @ [Insert T' (Some c)])"
      by (simp add: live_insertion_of_snoc)
    with Emplace live_step_Insert [of T ops p T' "Some c", OF snoc.IH] show ?thesis
      by (simp add: emplace_is_insert)
  next
    case (Insert T' p')
    with live_step_Insert [of T ops p T' p', OF snoc.IH] show ?thesis by simp
  next
    case (Erase ti)
    with live_step_Erase [of T ops p ti, OF snoc.IH] show ?thesis by simp
  qed
qed

lemma entries_for_append:
  "entries_for (m @ n) k = entries_for m k @ entries_for n k"
  by (simp add: entries_for_def)

lemma entries_for_absent: "umap_find m k = None \<Longrightarrow> entries_for m k = []"
  by (simp add: entries_for_def umap_find_None_iff filter_empty_conv)

lemma entries_for_insert_T:
  "length (entries_for (componentMap e) k) \<le> 1 \<Longrightarrow>
   length (entries_for (componentMap (insert_T T p e)) k) \<le> 1"
proof (cases "umap_find (componentMap e) (Some T)")
  case (Some q)
  assume "length (entries_for (componentMap e) k) \<le> 1"
  with Some show ?thesis by (simp add: insert_T_def umap_emplace_def)
next
  case None
  assume le: "length (entries_for (componentMap e) k) \<le> 1"
  show ?thesis
  proof (cases "EqualReferents (Some T) k")
    case True
    then have "umap_find (componentMap e) k = None"
      using None umap_find_equiv [of "Some T" k "componentMap e"] by simp
    then have "entries_for (componentMap e) k = []" by (rule entries_for_absent)
    with None show ?thesis
      by (simp add: insert_T_def umap_emplace_def entries_for_append)
        (simp add: entries_for_def)
  next
    case False
    with None le show ?thesis
      by (simp add: insert_T_def umap_emplace_def entries_for_append)
        (simp add: entries_for_def)
  qed
qed

lemma entries_for_erase:
  "length (entries_for (componentMap (erase ti e)) k) \<le> length (entries_for (componentMap e) k)"
proof -
  have "entries_for (umap_erase m ti) k =
        filter (\<lambda>p. \<not> EqualReferents (fst p) ti) (entries_for m k)" for m :: "'a UnderlyingMap"
    by (auto simp: entries_for_def umap_erase_def intro: filter_cong)
  then show ?thesis by (simp add: erase_def)
qed

lemma entries_for_run: "length (entries_for (componentMap (run ops)) k) \<le> 1"
proof (induction ops rule: rev_induct)
  case Nil
  then show ?case by (simp add: Entity_ctor_def entries_for_def)
next
  case (snoc op ops)
  show ?case
  proof (cases op)
    case (Emplace T c)
    with snoc entries_for_insert_T [of "run ops" k T "Some c"] show ?thesis
      by (simp add: emplace_is_insert)
  next
    case (Insert T p)
    with snoc entries_for_insert_T [of "run ops" k T p] show ?thesis by simp
  next
    case (Erase ti)
    with snoc entries_for_erase [of ti "run ops" k] show ?thesis by simp
  qed
qed

lemma present_iff_live_of:
  "(contains_T T (run ops) \<and> get_T T (run ops) = Inr p) \<longleftrightarrow>
   live_insertion_of (ti_type T) p ops"
proof
  assume "live_insertion_of (ti_type T) p ops"
  then obtain k where
    "umap_find (componentMap (run ops)) (Some T) = Some (k, MakeComponentPtr (ti_type T) p)"
    using find_run_char by blast
  then show "contains_T T (run ops) \<and> get_T T (run ops) = Inr p"
    by (simp add: contains_T_def contains_def get_T_def get_def static_cast_MakeComponentPtr)
next
  assume a: "contains_T T (run ops) \<and> get_T T (run ops) = Inr p"
  then obtain q where q: "umap_find (componentMap (run ops)) (Some T) = Some q"
    unfolding contains_T_def contains_def by blast
  then obtain T' p' where r: "q = (Some T', MakeComponentPtr (ti_type T) p')"
    using find_run_repr by blast
  with q have "get_T T (run ops) = Inr p'"
    by (simp add: get_T_def get_def static_cast_MakeComponentPtr)
  with a have "p' = p" by simp
  with q r show "live_insertion_of (ti_type T) p ops"
    using find_run_char by blast
qed

lemma contains_iff_live:
  "contains_T T (run ops) \<longleftrightarrow> live_insertion (ti_type T) ops"
proof
  assume "live_insertion (ti_type T) ops"
  then obtain p where "live_insertion_of (ti_type T) p ops"
    using live_insertion_iff_of by blast
  then show "contains_T T (run ops)" using present_iff_live_of by blast
next
  assume c: "contains_T T (run ops)"
  then obtain q where q: "umap_find (componentMap (run ops)) (Some T) = Some q"
    unfolding contains_T_def contains_def by blast
  then obtain T' p' where r: "q = (Some T', MakeComponentPtr (ti_type T) p')"
    using find_run_repr by blast
  with q have "live_insertion_of (ti_type T) p' ops"
    using find_run_char by blast
  then show "live_insertion (ti_type T) ops"
    using live_insertion_iff_of by blast
qed

text \<open>
  C3. Uniqueness and presence: after any sequence of \<^verbatim>\<open>emplace<T>\<close>, \<^verbatim>\<open>insert<T>\<close>
  and \<^verbatim>\<open>erase<T>\<close> operations on a new entity, \<^verbatim>\<open>contains<T>()\<close> is true if and only
  if an insertion of \<^verbatim>\<open>T\<close> took place that no later operation erased; \<^verbatim>\<open>contains<T>()\<close>
  is true and \<^verbatim>\<open>get<T>()\<close> returns the pointer \<open>p\<close> if and only if such an insertion
  handed over \<open>p\<close>; so \<^verbatim>\<open>contains<T>()\<close> is true and \<^verbatim>\<open>get<T>()\<close> returns a
  component if and only if such an insertion took place and it did not hand over a null
  pointer; and the store holds at most one entry for each type. The operations may
  concern any types and name them through any of their \<^verbatim>\<open>type_info\<close> objects.
\<close>

theorem uniqueness_presence:
  "(contains_T T (run ops) \<longleftrightarrow> live_insertion (ti_type T) ops) \<and>
   ((contains_T T (run ops) \<and> get_T T (run ops) = Inr p) \<longleftrightarrow>
      live_insertion_of (ti_type T) p ops) \<and>
   ((contains_T T (run ops) \<and> non_absent (get_T T (run ops))) \<longleftrightarrow>
      (live_insertion (ti_type T) ops \<and> \<not> live_insertion_of (ti_type T) None ops)) \<and>
   length (entries_for (componentMap (run ops)) (Some T)) \<le> 1"
proof -
  have n: "(contains_T T (run ops) \<and> non_absent (get_T T (run ops))) \<longleftrightarrow>
      (live_insertion (ti_type T) ops \<and> \<not> live_insertion_of (ti_type T) None ops)"
  proof (cases "contains_T T (run ops)")
    case False
    then show ?thesis by (simp add: contains_iff_live)
  next
    case True
    then obtain p where p: "live_insertion_of (ti_type T) p ops"
      using contains_iff_live live_insertion_iff_of by blast
    then have g: "get_T T (run ops) = Inr p"
      using present_iff_live_of by blast
    have "live_insertion_of (ti_type T) None ops \<longleftrightarrow> p = None"
      using present_iff_live_of [of T ops None] True g by auto
    with True g show ?thesis
      by (cases p) (simp_all add: contains_iff_live [symmetric] non_absent_def)
  qed
  from contains_iff_live [of T ops] present_iff_live_of [of T ops p] n
    entries_for_run [of ops "Some T"]
  show ?thesis by blast
qed

theorem uniqueness_presence_witness:
  "contains_T Position (run example_ops) \<and>
   get_T Position (run example_ops) = Inr (Some 4) \<and>
   live_insertion_of ''Position'' (Some 4) example_ops \<and>
   \<not> live_insertion_of ''Position'' (Some 5) example_ops \<and>
   live_insertion ''Position'' example_ops \<and>
   \<not> contains_T Health (run example_ops) \<and>
   \<not> live_insertion ''Health'' example_ops"
  using uniqueness_presence [of Position example_ops "Some 4"]
  by (simp add: example_ops_def ecs_defs run_def apply_ops_def live_insertion_def
      live_insertion_of_def not_erased_after_def Health_def upt_conv_Cons)

end
